theory Spec2Isabelle
  imports Main
begin

section \<open>Data model\<close>

text \<open>
  The script reads tokens of a document produced by the external pipeline. A token is a
  record of the attributes the script reads (\<^verbatim>\<open>token.text\<close>, \<^verbatim>\<open>token.idx\<close>,
  \<^verbatim>\<open>token.is_alpha\<close>, \<^verbatim>\<open>token.is_punct\<close>, \<^verbatim>\<open>token.is_stop\<close>, \<^verbatim>\<open>token.tag_\<close>,
  \<^verbatim>\<open>token.lemma_\<close>, \<^verbatim>\<open>token.pos_\<close>) and of the one attribute it writes,
  \<^verbatim>\<open>token.is_sent_start\<close>, which is \<^verbatim>\<open>None\<close>, \<^verbatim>\<open>True\<close> or \<^verbatim>\<open>False\<close>.
  A document is the sequence of its tokens; \<^verbatim>\<open>token.i\<close> is the position of the token
  in that sequence.
\<close>

record token =
  "text" :: string
  idx :: nat
  is_alpha :: bool
  is_punct :: bool
  is_stop :: bool
  tag :: string
  lemma_of :: string
  pos :: string
  is_sent_start :: "bool option"

section \<open>Word-frequency counter\<close>

text \<open>
  \<^verbatim>\<open>collections.Counter\<close> is a dictionary, and a Python dictionary keeps its keys in the
  order of their first insertion; \<^verbatim>\<open>items()\<close> and \<^verbatim>\<open>most_common\<close> depend on that order,
  so the dictionary is an association list with distinct keys.
  \<^verbatim>\<open>mapping.get(elem, 0)\<close> reads with a default; \<^verbatim>\<open>mapping[elem] = v\<close> overwrites the
  value of a key in place and appends a key that is new.
\<close>

type_synonym 'k counter = "('k \<times> int) list"

fun dict_get :: "'k counter \<Rightarrow> 'k \<Rightarrow> int \<Rightarrow> int" where
  "dict_get [] k d = d"
| "dict_get ((k', v) # m) k d = (if k' = k then v else dict_get m k d)"

fun dict_set :: "'k counter \<Rightarrow> 'k \<Rightarrow> int \<Rightarrow> 'k counter" where
  "dict_set [] k v = [(k, v)]"
| "dict_set ((k', v') # m) k v = (if k' = k then (k', v) # m else (k', v') # dict_set m k v)"

text \<open>
  \<^verbatim>\<open>Counter(words)\<close> starts from the empty dictionary and runs, for each element of the
  iterable in order, \<^verbatim>\<open>mapping[elem] = mapping.get(elem, 0) + 1\<close>.
\<close>

definition count_element :: "'k counter \<Rightarrow> 'k \<Rightarrow> 'k counter" where
  "count_element m elem = dict_set m elem (dict_get m elem 0 + 1)"

definition Counter :: "'k list \<Rightarrow> 'k counter" where
  "Counter iterable = foldl count_element [] iterable"

definition items :: "'k counter \<Rightarrow> ('k \<times> int) list" where
  "items m = m"

text \<open>
  \<^verbatim>\<open>most_common(n)\<close> is \<^verbatim>\<open>heapq.nlargest(n, self.items(), key=itemgetter(1))\<close>, which
  is \<^verbatim>\<open>sorted(self.items(), key=itemgetter(1), reverse=True)[:n]\<close>: a stable sort by
  descending count (entries of equal count keep the order of \<^verbatim>\<open>items()\<close>), cut to its
  first \<open>n\<close> entries.
\<close>

definition most_common :: "nat \<Rightarrow> 'k counter \<Rightarrow> ('k \<times> int) list" where
  "most_common n m = take n (sort_key (\<lambda>(word, freq). - freq) (items m))"

text \<open>
  \<^verbatim>\<open>unique_words = [word for (word, freq) in word_freq.items() if freq == 1]\<close>
\<close>

definition unique_words :: "'k counter \<Rightarrow> 'k list" where
  "unique_words word_freq = map fst (filter (\<lambda>(word, freq). freq = 1) (items word_freq))"

text \<open>
  The position at which a word is first seen in a sequence (the length of the sequence
  for a word that does not occur): the order that ties between equal counts follow.
\<close>

fun first_seen :: "'k list \<Rightarrow> 'k \<Rightarrow> nat" where
  "first_seen [] w = 0"
| "first_seen (x # xs) w = (if x = w then 0 else Suc (first_seen xs w))"

text \<open>
  The input of the counter in the script (lines 201 to 206):
  \<^verbatim>\<open>words = [token.text for token in complete_doc
            if not token.is_stop and not token.is_punct]\<close>,
  followed by \<^verbatim>\<open>word_freq = Counter(words)\<close> and \<^verbatim>\<open>word_freq.most_common(5)\<close>.
\<close>

definition words :: "'a token_scheme list \<Rightarrow> string list" where
  "words complete_doc =
     [text token. token \<leftarrow> complete_doc, \<not> is_stop token \<and> \<not> is_punct token]"

text \<open>
  \<^verbatim>\<open>token.is_stop\<close> and \<^verbatim>\<open>token.is_punct\<close> are flags of the token's lexeme, the
  vocabulary entry of its text, which all tokens of one text share. A document that the
  pipeline produced therefore has equal flags on tokens of equal text.
\<close>

definition lexeme_flags :: "'a token_scheme list \<Rightarrow> bool" where
  "lexeme_flags doc \<longleftrightarrow>
     (\<forall>t \<in> set doc. \<forall>u \<in> set doc.
        text t = text u \<longrightarrow> is_stop t = is_stop u \<and> is_punct t = is_punct u)"

text \<open>A token that carries a text and default values of every other attribute.\<close>

definition tok :: "string \<Rightarrow> token" where
  "tok s = \<lparr>text = s, idx = 0, is_alpha = False, is_punct = False, is_stop = False,
            tag = [], lemma_of = s, pos = [], is_sent_start = None\<rparr>"

section \<open>Custom sentence-boundary rule\<close>

text \<open>
  \<^verbatim>\<open>
  def set_custom_boundaries(doc):
      for token in doc[:-1]:
          if token.text == "...":
              doc[token.i + 1].is_sent_start = True
      return doc
  \<close>
  The document is mutated in place, so it is passed through the loop as state. Indexing a
  document out of range raises \<^verbatim>\<open>IndexError\<close>, so reading a token and writing its
  \<^verbatim>\<open>is_sent_start\<close> return an error or a value. The slice \<^verbatim>\<open>doc[:-1]\<close> covers the
  positions from 0 up to the length minus one, clipped at 0 for the empty document, and
  iterating over it yields \<^verbatim>\<open>doc[i]\<close> for each of its positions in order;
  \<^verbatim>\<open>token.i\<close> is that position. The component is registered before the parser
  (line 76), so it runs on documents whose \<^verbatim>\<open>is_sent_start\<close> is still writable.
\<close>

datatype error = IndexError

definition get_token :: "'a token_scheme list \<Rightarrow> nat \<Rightarrow> error + 'a token_scheme" where
  "get_token doc j = (if j < length doc then Inr (doc ! j) else Inl IndexError)"

definition set_is_sent_start ::
  "'a token_scheme list \<Rightarrow> nat \<Rightarrow> bool option \<Rightarrow> error + 'a token_scheme list" where
  "set_is_sent_start doc j v =
     (if j < length doc then Inr (doc[j := (doc ! j)\<lparr>is_sent_start := v\<rparr>])
      else Inl IndexError)"

definition all_but_last :: "'a token_scheme list \<Rightarrow> nat list" where
  "all_but_last doc = [0 ..< length doc - 1]"

fun scan :: "nat list \<Rightarrow> 'a token_scheme list \<Rightarrow> error + 'a token_scheme list" where
  "scan [] doc = Inr doc"
| "scan (i # rest) doc =
     (case get_token doc i of
        Inl e \<Rightarrow> Inl e
      | Inr token \<Rightarrow>
          if text token = ''...'' then
            (case set_is_sent_start doc (i + 1) (Some True) of
               Inl e \<Rightarrow> Inl e
             | Inr doc' \<Rightarrow> scan rest doc')
          else scan rest doc)"

definition set_custom_boundaries ::
  "'a token_scheme list \<Rightarrow> error + 'a token_scheme list" where
  "set_custom_boundaries doc = scan (all_but_last doc) doc"

text \<open>
  The positions that a scan of \<open>visited\<close> marks: those that follow a visited position
  whose token is the delimiter.
\<close>

definition marked :: "nat list \<Rightarrow> 'a token_scheme list \<Rightarrow> nat \<Rightarrow> bool" where
  "marked visited doc j \<longleftrightarrow> 0 < j \<and> j - 1 \<in> set visited \<and> text (doc ! (j - 1)) = ''...''"

section \<open>Loading the pipeline\<close>

text \<open>
  \<^verbatim>\<open>
  try:
      nlp = spacy.load("en_core_web_sm")
  except OSError:
      from spacy.cli import download
      download("en_core_web_sm")
      nlp = spacy.load("en_core_web_sm")
  \<close>
  Loading and downloading are calls into the library whose outcome depends on what is
  installed: they are parameters, functions of the state \<open>'w\<close> of the installation.
  \<open>load\<close> returns a pipeline handle or raises; \<open>download\<close> (the import and the call)
  returns the new state of the installation or raises. The result is the handle bound to
  \<^verbatim>\<open>nlp\<close> or the exception that leaves the block, together with the calls made, in order.
  The value \<open>OSError\<close> stands for every exception that \<^verbatim>\<open>except OSError\<close> catches.
\<close>

datatype exn = OSError | ImportError | ValueError | SystemExit

datatype call = Load | Download

definition load_nlp ::
  "('w \<Rightarrow> exn + 'h) \<Rightarrow> ('w \<Rightarrow> exn + 'w) \<Rightarrow> 'w \<Rightarrow> (exn + 'h) \<times> call list" where
  "load_nlp load download w =
     (case load w of
        Inr nlp \<Rightarrow> (Inr nlp, [Load])
      | Inl e \<Rightarrow>
          if e = OSError then
            (case download w of
               Inl e' \<Rightarrow> (Inl e', [Load, Download])
             | Inr w' \<Rightarrow> (load w', [Load, Download, Load]))
          else (Inl e, [Load]))"

text \<open>
  An installation that either has the model or not: loading raises \<^verbatim>\<open>OSError\<close> until
  the model is there, and the download puts it there.
\<close>

definition load_installed :: "bool \<Rightarrow> exn + nat" where
  "load_installed installed = (if installed then Inr 0 else Inl OSError)"

definition download_ok :: "bool \<Rightarrow> exn + bool" where
  "download_ok installed = Inr True"

section \<open>Pipeline objects held by the script\<close>

text \<open>
  The statements of the script that bind or use a pipeline, with their lines. Every call
  of \<^verbatim>\<open>spacy.load\<close> that returns builds a new pipeline object (line 74: ``Load a new
  model instance''), so a load binds its variable to a handle that no earlier load
  returned; the state records the binding of the two global names and the number of
  objects loaded so far. The \<^verbatim>\<open>try\<close> statement of lines 8 to 14 binds \<^verbatim>\<open>nlp\<close> once: at
  line 9 when the first load returns, at line 14 when the load is retried (the load that
  raised returned no object).
\<close>

datatype var = Nlp | Custom_nlp

datatype stmt = Assign_load var | Use var

record globals =
  nlp :: "nat option"
  custom_nlp :: "nat option"
  loaded :: nat

definition start :: globals where
  "start = \<lparr>nlp = None, custom_nlp = None, loaded = 0\<rparr>"

fun exec :: "stmt \<Rightarrow> globals \<Rightarrow> globals" where
  "exec (Assign_load Nlp) s = s\<lparr>nlp := Some (loaded s), loaded := loaded s + 1\<rparr>"
| "exec (Assign_load Custom_nlp) s = s\<lparr>custom_nlp := Some (loaded s), loaded := loaded s + 1\<rparr>"
| "exec (Use v) s = s"

definition run :: "stmt list \<Rightarrow> globals \<Rightarrow> globals" where
  "run stmts s = foldl (\<lambda>s c. exec c s) s stmts"

definition script :: "bool \<Rightarrow> (nat \<times> stmt) list" where
  "script first_load_ok =
     [(if first_load_ok then 9 else 14, Assign_load Nlp),
      (16, Use Nlp), (23, Use Nlp), (32, Use Nlp), (37, Use Nlp), (47, Use Nlp),
      (75, Assign_load Custom_nlp), (76, Use Custom_nlp), (77, Use Custom_nlp),
      (82, Use Nlp), (118, Use Nlp),
      (120, Assign_load Custom_nlp), (121, Use Custom_nlp), (122, Use Custom_nlp),
      (129, Use Custom_nlp), (132, Use Custom_nlp), (133, Use Nlp), (140, Use Custom_nlp),
      (173, Use Nlp), (199, Use Nlp)]"

text \<open>
  The state once every statement up to and including a line has run, and the pipeline
  objects that the global names hold in a state.
\<close>

definition state_at :: "bool \<Rightarrow> nat \<Rightarrow> globals" where
  "state_at first_load_ok line =
     run (map snd (filter (\<lambda>(l, c). l \<le> line) (script first_load_ok))) start"

definition held :: "globals \<Rightarrow> nat set" where
  "held s = set_option (nlp s) \<union> set_option (custom_nlp s)"

fun is_load :: "stmt \<Rightarrow> bool" where
  "is_load (Assign_load v) = True"
| "is_load (Use v) = False"

section \<open>Properties of the counter\<close>

lemma dict_get_map_of:
  "dict_get m k d = (case map_of m k of None \<Rightarrow> d | Some v \<Rightarrow> v)"
  by (induction m) auto

lemma map_of_dict_set: "map_of (dict_set m k v) = (map_of m)(k \<mapsto> v)"
  by (induction m) (auto simp: fun_eq_iff)

lemma keys_dict_set:
  "map fst (dict_set m k v) = (if k \<in> fst ` set m then map fst m else map fst m @ [k])"
  by (induction m) force+

lemma keys_count_element:
  "map fst (count_element m w) = (if w \<in> fst ` set m then map fst m else map fst m @ [w])"
  by (simp add: count_element_def keys_dict_set)

lemma Counter_snoc: "Counter (ws @ [w]) = count_element (Counter ws) w"
  by (simp add: Counter_def)

lemma Counter_Nil: "Counter [] = []"
  by (simp add: Counter_def)

lemma keys_Counter: "set (map fst (Counter ws)) = set ws"
proof (induction ws rule: rev_induct)
  case Nil
  show ?case by (simp add: Counter_Nil)
next
  case (snoc w ws)
  then show ?case by (auto simp: Counter_snoc keys_count_element)
qed

lemma distinct_keys_Counter: "distinct (map fst (Counter ws))"
proof (induction ws rule: rev_induct)
  case Nil
  show ?case by (simp add: Counter_Nil)
next
  case (snoc w ws)
  then show ?case by (simp add: Counter_snoc keys_count_element)
qed

lemma map_of_Counter:
  "map_of (Counter ws) w = (if w \<in> set ws then Some (int (count_list ws w)) else None)"
proof (induction ws arbitrary: w rule: rev_induct)
  case Nil
  show ?case by (simp add: Counter_Nil)
next
  case (snoc x ws)
  show ?case
    by (simp add: Counter_snoc count_element_def map_of_dict_set dict_get_map_of snoc.IH)
qed

lemma entry_Counter_iff:
  "(w, n) \<in> set (Counter ws) \<longleftrightarrow> w \<in> set ws \<and> n = int (count_list ws w)"
proof -
  have "(w, n) \<in> set (Counter ws) \<longleftrightarrow> map_of (Counter ws) w = Some n"
    using distinct_keys_Counter [of ws] by simp
  then show ?thesis
    by (auto simp: map_of_Counter)
qed

lemma sum_dict_set:
  "sum_list (map snd (dict_set m k v)) = sum_list (map snd m) - dict_get m k 0 + v"
  by (induction m) auto

lemma sum_count_element:
  "sum_list (map snd (count_element m w)) = sum_list (map snd m) + 1"
  by (simp add: count_element_def sum_dict_set)

lemma set_unique_words: "w \<in> set (unique_words m) \<longleftrightarrow> (w, 1) \<in> set m"
  by (force simp: unique_words_def items_def)

lemma distinct_unique_words: "distinct (map fst m) \<Longrightarrow> distinct (unique_words m)"
  by (simp add: unique_words_def items_def distinct_map_filter)

section \<open>The frequency table\<close>

text \<open>
  C3. For every finite sequence of token texts, the keys of the counter are exactly the
  distinct texts of the sequence (each key once), and the counter maps each of them to
  the number of its occurrences: an entry \<open>(w, n)\<close> is in the table exactly when \<open>w\<close>
  occurs in the sequence and \<open>n\<close> is the number of its occurrences; a lookup of a text
  that does not occur finds nothing.
\<close>

theorem Counter_keys_and_counts:
  "distinct (map fst (items (Counter ws)))
   \<and> set (map fst (items (Counter ws))) = set ws
   \<and> ((w, n) \<in> set (items (Counter ws)) \<longleftrightarrow> w \<in> set ws \<and> n = int (count_list ws w))
   \<and> map_of (items (Counter ws)) w
       = (if w \<in> set ws then Some (int (count_list ws w)) else None)"
  unfolding items_def
  using distinct_keys_Counter [of ws] keys_Counter [of ws] entry_Counter_iff [of w n ws]
    map_of_Counter [of ws w]
  by blast

text \<open>
  C4. For every finite sequence of token texts, a word is in the list of unique words
  if and only if it occurs exactly once in the sequence; the list holds no word twice.
\<close>

theorem unique_words_iff_count_one:
  "(w \<in> set (unique_words (Counter ws)) \<longleftrightarrow> count_list ws w = 1)
   \<and> distinct (unique_words (Counter ws))"
proof
  have "count_list ws w = 1 \<Longrightarrow> w \<in> set ws"
    using count_notin [of w ws] by fastforce
  then show "w \<in> set (unique_words (Counter ws)) \<longleftrightarrow> count_list ws w = 1"
    by (auto simp: set_unique_words entry_Counter_iff)
  show "distinct (unique_words (Counter ws))"
    by (rule distinct_unique_words) (rule distinct_keys_Counter)
qed

text \<open>
  C10. The counter conserves occurrences: the counts of all entries of the table add up
  to the length of the input sequence.
\<close>

theorem Counter_sum_counts:
  "sum_list (map snd (items (Counter ws))) = int (length ws)"
proof (induction ws rule: rev_induct)
  case Nil
  show ?case by (simp add: items_def Counter_Nil)
next
  case (snoc w ws)
  then show ?case
    by (simp add: items_def Counter_snoc sum_count_element)
qed

section \<open>First-seen order of the keys\<close>

lemma first_seen_append: "x \<in> set ws \<Longrightarrow> first_seen (ws @ ys) x = first_seen ws x"
  by (induction ws) auto

lemma first_seen_less: "x \<in> set ws \<Longrightarrow> first_seen ws x < length ws"
  by (induction ws) auto

lemma first_seen_new: "w \<notin> set ws \<Longrightarrow> first_seen (ws @ [w]) w = length ws"
  by (induction ws) auto

text \<open>\<open>first_seen\<close> is the least position that holds the word.\<close>

lemma first_seen_nth: "w \<in> set ws \<Longrightarrow> ws ! first_seen ws w = w"
  by (induction ws) auto

lemma first_seen_least: "i < first_seen ws w \<Longrightarrow> i < length ws \<Longrightarrow> ws ! i \<noteq> w"
  by (induction ws arbitrary: i) (auto simp: nth_Cons split: nat.splits if_splits)

lemma keys_first_seen_order:
  "sorted_wrt (\<lambda>a b. first_seen ws a < first_seen ws b) (map fst (Counter ws))"
proof (induction ws rule: rev_induct)
  case Nil
  show ?case by (simp add: Counter_Nil)
next
  case (snoc w ws)
  have keys: "set (map fst (Counter ws)) = set ws"
    by (rule keys_Counter)
  have old: "sorted_wrt (\<lambda>a b. first_seen (ws @ [w]) a < first_seen (ws @ [w]) b)
               (map fst (Counter ws))"
    by (rule sorted_wrt_mono_rel [OF _ snoc.IH]) (use keys in \<open>auto simp: first_seen_append\<close>)
  show ?case
  proof (cases "w \<in> set ws")
    case True
    then show ?thesis
      using old keys by (simp add: Counter_snoc keys_count_element)
  next
    case False
    have "first_seen (ws @ [w]) x < first_seen (ws @ [w]) w" if "x \<in> set ws" for x
      using that False by (simp add: first_seen_new first_seen_append first_seen_less)
    then show ?thesis
      using old keys False
      by (simp add: Counter_snoc keys_count_element sorted_wrt_append)
  qed
qed

lemma sorted_wrt_by_classes:
  "(\<And>k. sorted_wrt R (filter (\<lambda>x. f x = k) xs)) \<Longrightarrow>
   sorted_wrt (\<lambda>a b. f a = f b \<longrightarrow> R a b) xs"
proof (induction xs)
  case Nil
  show ?case by simp
next
  case (Cons x xs)
  have tail: "sorted_wrt R (filter (\<lambda>y. f y = k) xs)" for k
    using Cons.prems [of k] by (simp split: if_splits)
  have head: "R x y" if "y \<in> set xs" "f x = f y" for y
    using Cons.prems [of "f x"] that by simp
  show ?case
    using Cons.IH [OF tail] head by simp
qed

lemma sorted_desc_sort_key:
  "sorted_wrt (\<lambda>a b. snd b \<le> snd a) (sort_key (\<lambda>(word, freq). - freq) (m :: ('k \<times> int) list))"
proof -
  have "sorted (map (\<lambda>(word, freq). - freq) (sort_key (\<lambda>(word, freq). - freq) m))"
    by (rule sorted_sort_key)
  then show ?thesis
    by (simp add: sorted_map case_prod_unfold)
qed

lemma stable_sort_key_ties:
  assumes "sorted_wrt R (m :: ('k \<times> int) list)"
  shows "sorted_wrt (\<lambda>a b. snd a = snd b \<longrightarrow> R a b) (sort_key (\<lambda>(word, freq). - freq) m)"
proof -
  let ?f = "\<lambda>(word, freq). - freq :: int"
  have "sorted_wrt R (filter (\<lambda>y. ?f y = k) (sort_key ?f m))" for k
    using assms by (simp add: sort_key_stable sorted_wrt_filter)
  then have "sorted_wrt (\<lambda>a b. ?f a = ?f b \<longrightarrow> R a b) (sort_key ?f m)"
    by (rule sorted_wrt_by_classes)
  then show ?thesis
    by (simp add: case_prod_unfold)
qed

lemma take_dominates_rest:
  assumes "sorted_wrt R xs" "a \<in> set (take k xs)" "e \<in> set xs" "e \<notin> set (take k xs)"
  shows "R a e"
proof -
  have "e \<in> set (drop k xs)"
    using assms(3,4) by (metis Un_iff append_take_drop_id set_append)
  moreover have "sorted_wrt R (take k xs @ drop k xs)"
    using assms(1) by simp
  ultimately show ?thesis
    using assms(2) unfolding sorted_wrt_append by blast
qed

section \<open>The most common words\<close>

lemma length_items_Counter: "length (items (Counter ws)) = card (set ws)"
proof -
  have "card (set ws) = card (set (map fst (Counter ws)))"
    by (simp only: keys_Counter)
  also have "\<dots> = length (map fst (Counter ws))"
    by (rule distinct_card) (rule distinct_keys_Counter)
  finally show ?thesis
    by (simp add: items_def)
qed

text \<open>
  C1. For every finite sequence of token texts and every \<open>K\<close> (the script asks for
  \<open>K = 5\<close>), the top-\<open>K\<close> query on the counter of the sequence returns \<open>K\<close> entries, or
  all entries when the sequence has fewer than \<open>K\<close> distinct words, so at most \<open>K\<close>. They
  are entries of the counter, no word twice, ordered by descending count; of two
  returned entries with equal counts, the one listed first is the one whose word is seen
  first in the sequence. An entry left out has no larger count than a returned one, and
  where it has the same count its word is seen later in the sequence: ties at the cut
  are broken by first-seen order too.
\<close>

theorem most_common_top_K:
  "length (most_common K (Counter ws)) \<le> K
   \<and> length (most_common K (Counter ws)) = min K (length (items (Counter ws)))
   \<and> length (items (Counter ws)) = card (set ws)
   \<and> set (most_common K (Counter ws)) \<subseteq> set (items (Counter ws))
   \<and> distinct (map fst (most_common K (Counter ws)))
   \<and> sorted_wrt (\<lambda>a b. snd b \<le> snd a) (most_common K (Counter ws))
   \<and> sorted_wrt (\<lambda>a b. snd a = snd b \<longrightarrow> first_seen ws (fst a) < first_seen ws (fst b))
        (most_common K (Counter ws))
   \<and> (\<forall>a \<in> set (most_common K (Counter ws)).
        \<forall>e \<in> set (items (Counter ws)) - set (most_common K (Counter ws)). snd e \<le> snd a)
   \<and> (\<forall>a \<in> set (most_common K (Counter ws)).
        \<forall>e \<in> set (items (Counter ws)) - set (most_common K (Counter ws)).
          snd e = snd a \<longrightarrow> first_seen ws (fst a) < first_seen ws (fst e))"
proof -
  let ?s = "sort_key (\<lambda>(word, freq). - freq) (Counter ws)"
  let ?T = "\<lambda>a b. snd a = snd b \<longrightarrow> first_seen ws (fst a) < first_seen ws (fst b)"
  define r where "r = most_common K (Counter ws)"
  have r: "r = take K ?s"
    by (simp add: r_def most_common_def items_def)
  have desc: "sorted_wrt (\<lambda>a b. snd b \<le> snd a) ?s"
    by (rule sorted_desc_sort_key)
  have "sorted_wrt (\<lambda>a b. first_seen ws (fst a) < first_seen ws (fst b)) (Counter ws)"
    using keys_first_seen_order [of ws] by (simp add: sorted_wrt_map)
  then have ties: "sorted_wrt ?T ?s"
    by (rule stable_sort_key_ties)
  have "distinct (map fst ?s)"
    using distinct_keys_Counter [of ws]
    by (metis distinct_map distinct_sort set_sort)
  then have dist: "distinct (map fst r)"
    unfolding r by (simp add: take_map [symmetric])
  have "length r \<le> K"
    by (simp add: r)
  moreover have "length r = min K (length (items (Counter ws)))"
    by (simp add: r items_def min.commute)
  moreover have "set r \<subseteq> set (items (Counter ws))"
    using set_take_subset [of K ?s] by (simp add: r items_def)
  moreover have "sorted_wrt (\<lambda>a b. snd b \<le> snd a) r"
    unfolding r by (rule sorted_wrt_take [OF desc])
  moreover have "sorted_wrt ?T r"
    unfolding r by (rule sorted_wrt_take [OF ties])
  moreover have "\<forall>a \<in> set r. \<forall>e \<in> set (items (Counter ws)) - set r. snd e \<le> snd a"
    using take_dominates_rest [OF desc, of _ K] by (auto simp: r items_def)
  moreover have "\<forall>a \<in> set r. \<forall>e \<in> set (items (Counter ws)) - set r. ?T a e"
    using take_dominates_rest [OF ties, of _ K] by (auto simp: r items_def)
  ultimately show ?thesis
    using dist length_items_Counter [of ws] unfolding r_def by (simp add: eq_commute)
qed

theorem most_common_top_K_witness:
  "most_common 2 (Counter [''b'', ''a'', ''c'', ''a'', ''c'', ''d'', ''b''])
     = [(''b'', 2), (''a'', 2)]
   \<and> (''c'', 2) \<in> set (items (Counter [''b'', ''a'', ''c'', ''a'', ''c'', ''d'', ''b'']))
         - set (most_common 2 (Counter [''b'', ''a'', ''c'', ''a'', ''c'', ''d'', ''b'']))
   \<and> first_seen [''b'', ''a'', ''c'', ''a'', ''c'', ''d'', ''b''] ''b''
       < first_seen [''b'', ''a'', ''c'', ''a'', ''c'', ''d'', ''b''] ''a''
   \<and> first_seen [''b'', ''a'', ''c'', ''a'', ''c'', ''d'', ''b''] ''a''
       < first_seen [''b'', ''a'', ''c'', ''a'', ''c'', ''d'', ''b''] ''c''
   \<and> length (most_common 2 (Counter [''b'', ''a'', ''c'', ''a'', ''c'', ''d'', ''b''])) = 2"
proof -
  have r: "most_common 2 (Counter [''b'', ''a'', ''c'', ''a'', ''c'', ''d'', ''b''])
      = [(''b'', 2), (''a'', 2)]"
    by (simp add: most_common_def Counter_def count_element_def items_def)
  have c: "items (Counter [''b'', ''a'', ''c'', ''a'', ''c'', ''d'', ''b''])
      = [(''b'', 2), (''a'', 2), (''c'', 2), (''d'', 1)]"
    by (simp add: Counter_def count_element_def items_def)
  show ?thesis
    using most_common_top_K [of 2 "[''b'', ''a'', ''c'', ''a'', ''c'', ''d'', ''b'']"]
    unfolding r c by simp
qed

section \<open>The sentence-boundary scan\<close>

text \<open>
  A scan of positions that all have a successor in the document returns, touches no
  length, and changes exactly the marked positions, there only \<^verbatim>\<open>is_sent_start\<close>.
\<close>

lemma scan_result:
  "\<forall>i \<in> set visited. i + 1 < length doc \<Longrightarrow>
   \<exists>doc'. scan visited doc = Inr doc' \<and> length doc' = length doc
     \<and> (\<forall>j < length doc. doc' ! j =
           (if marked visited doc j then (doc ! j)\<lparr>is_sent_start := Some True\<rparr> else doc ! j))"
proof (induction visited arbitrary: doc)
  case Nil
  show ?case by (simp add: marked_def)
next
  case (Cons i rest)
  have i: "i + 1 < length doc" and rest: "\<forall>k \<in> set rest. k + 1 < length doc"
    using Cons.prems by simp_all
  show ?case
  proof (cases "text (doc ! i) = ''...''")
    case False
    obtain doc' where d: "scan rest doc = Inr doc'" "length doc' = length doc"
      "\<forall>j < length doc. doc' ! j =
           (if marked rest doc j then (doc ! j)\<lparr>is_sent_start := Some True\<rparr> else doc ! j)"
      using Cons.IH [OF rest] by blast
    have "marked (i # rest) doc j = marked rest doc j" for j
      using False by (auto simp: marked_def)
    then show ?thesis
      using d i False by (simp add: get_token_def)
  next
    case True
    define doc1 where "doc1 = doc[i + 1 := (doc ! (i + 1))\<lparr>is_sent_start := Some True\<rparr>]"
    have len1: "length doc1 = length doc"
      by (simp add: doc1_def)
    have text1: "text (doc1 ! j) = text (doc ! j)" if "j < length doc" for j
      using that by (cases "j = i + 1") (simp_all add: doc1_def)
    obtain doc' where d: "scan rest doc1 = Inr doc'" "length doc' = length doc1"
      "\<forall>j < length doc1. doc' ! j =
           (if marked rest doc1 j then (doc1 ! j)\<lparr>is_sent_start := Some True\<rparr> else doc1 ! j)"
      using Cons.IH [of doc1] rest len1 by auto
    have step: "scan (i # rest) doc = scan rest doc1"
      using i True by (simp add: get_token_def set_is_sent_start_def doc1_def)
    have m1: "marked rest doc1 j = marked rest doc j" if "j < length doc" for j
      using that text1 [of "j - 1"] by (auto simp: marked_def)
    have m: "marked (i # rest) doc j \<longleftrightarrow> j = i + 1 \<or> marked rest doc j" for j
      using True by (auto simp: marked_def)
    have "doc' ! j =
        (if marked (i # rest) doc j then (doc ! j)\<lparr>is_sent_start := Some True\<rparr> else doc ! j)"
      if j: "j < length doc" for j
      using d(3) j len1 m1 [OF j] i unfolding m
      by (auto simp: doc1_def nth_list_update)
    then show ?thesis
      using d(1,2) len1 step by auto
  qed
qed

text \<open>
  C2. For every document and every index \<open>i\<close> with \<open>i < length - 1\<close>: if the token at
  index \<open>i\<close> has the text \<^verbatim>\<open>...\<close>, then \<open>set_custom_boundaries\<close> returns a document in
  which the token at index \<open>i + 1\<close> has \<^verbatim>\<open>is_sent_start\<close> set to \<^verbatim>\<open>True\<close>.
\<close>

theorem delimiter_marks_next:
  assumes "i < length doc - 1" and "text (doc ! i) = ''...''"
  shows "\<exists>doc'. set_custom_boundaries doc = Inr doc'
           \<and> is_sent_start (doc' ! (i + 1)) = Some True"
proof -
  have range: "\<forall>k \<in> set (all_but_last doc). k + 1 < length doc"
    by (auto simp: all_but_last_def)
  have "marked (all_but_last doc) doc (i + 1)"
    using assms by (simp add: marked_def all_but_last_def)
  moreover have "i + 1 < length doc"
    using assms(1) by simp
  ultimately show ?thesis
    using scan_result [OF range] unfolding set_custom_boundaries_def by fastforce
qed

theorem delimiter_marks_next_witness:
  "(1::nat) < length [tok ''should'', tok ''...'', tok ''never''] - 1
   \<and> text ([tok ''should'', tok ''...'', tok ''never''] ! 1) = ''...''
   \<and> (\<exists>doc'. set_custom_boundaries [tok ''should'', tok ''...'', tok ''never''] = Inr doc'
           \<and> is_sent_start (doc' ! (1 + 1)) = Some True)"
proof -
  have a: "(1::nat) < length [tok ''should'', tok ''...'', tok ''never''] - 1"
    by simp
  have b: "text ([tok ''should'', tok ''...'', tok ''never''] ! 1) = ''...''"
    by (simp add: tok_def)
  show ?thesis
    using a b delimiter_marks_next [OF a b] by blast
qed

text \<open>
  C8. \<open>set_custom_boundaries\<close> raises no \<^verbatim>\<open>IndexError\<close> on any document, the empty
  and the single-token document included: every position the scan visits lies strictly
  before the last token, so its successor \<open>i + 1\<close> is a position of the document.
\<close>

theorem set_custom_boundaries_safe:
  "(\<exists>doc'. set_custom_boundaries doc = Inr doc')
   \<and> (\<forall>i \<in> set (all_but_last doc). i < length doc - 1 \<and> i + 1 < length doc)
   \<and> set_custom_boundaries ([] :: 'a token_scheme list) = Inr []
   \<and> set_custom_boundaries [t] = Inr [t]"
proof -
  have range: "\<forall>k \<in> set (all_but_last doc). k + 1 < length doc"
    by (auto simp: all_but_last_def)
  have "\<exists>doc'. set_custom_boundaries doc = Inr doc'"
    using scan_result [OF range] unfolding set_custom_boundaries_def by blast
  moreover have "\<forall>i \<in> set (all_but_last doc). i < length doc - 1 \<and> i + 1 < length doc"
    by (auto simp: all_but_last_def)
  moreover have "set_custom_boundaries ([] :: 'a token_scheme list) = Inr []"
    by (simp add: set_custom_boundaries_def all_but_last_def)
  moreover have "set_custom_boundaries [t] = Inr [t]"
    by (simp add: set_custom_boundaries_def all_but_last_def)
  ultimately show ?thesis by blast
qed

text \<open>
  The bound of the slice matters: a scan of every position of a document that ends with
  the delimiter reads past the end.
\<close>

lemma scan_past_last_fails: "scan [0 ..< length [tok ''...'']] [tok ''...''] = Inl IndexError"
  by (simp add: get_token_def set_is_sent_start_def tok_def)

theorem set_custom_boundaries_safe_witness:
  "(\<exists>doc'. set_custom_boundaries [tok ''we'', tok ''should'', tok ''...''] = Inr doc')
   \<and> all_but_last [tok ''we'', tok ''should'', tok ''...''] = [0, 1]
   \<and> (1::nat) + 1 < length [tok ''we'', tok ''should'', tok ''...'']"
proof -
  have "all_but_last [tok ''we'', tok ''should'', tok ''...''] = [0, 1]"
    by (simp add: all_but_last_def upt_rec)
  moreover have "(1::nat) + 1 < length [tok ''we'', tok ''should'', tok ''...'']"
    by simp
  ultimately show ?thesis
    using set_custom_boundaries_safe [of "[tok ''we'', tok ''should'', tok ''...'']" "tok ''we''"]
    by blast
qed

text \<open>
  C9. \<open>set_custom_boundaries\<close> returns the document it was given, of the same length,
  in which every token equals the original one in every attribute other than
  \<^verbatim>\<open>is_sent_start\<close>, and a token that does not immediately follow a \<^verbatim>\<open>...\<close> token is
  unchanged altogether, \<^verbatim>\<open>is_sent_start\<close> included.
\<close>

theorem set_custom_boundaries_frame:
  "\<exists>doc'. set_custom_boundaries doc = Inr doc' \<and> length doc' = length doc
     \<and> (\<forall>j < length doc. (doc' ! j)\<lparr>is_sent_start := is_sent_start (doc ! j)\<rparr> = doc ! j)
     \<and> (\<forall>j < length doc. \<not> (0 < j \<and> text (doc ! (j - 1)) = ''...'') \<longrightarrow> doc' ! j = doc ! j)"
proof -
  have range: "\<forall>k \<in> set (all_but_last doc). k + 1 < length doc"
    by (auto simp: all_but_last_def)
  obtain doc' where d: "set_custom_boundaries doc = Inr doc'" "length doc' = length doc"
    and nth: "\<And>j. j < length doc \<Longrightarrow> doc' ! j =
           (if marked (all_but_last doc) doc j then (doc ! j)\<lparr>is_sent_start := Some True\<rparr>
            else doc ! j)"
    using scan_result [OF range] unfolding set_custom_boundaries_def by blast
  have "(doc' ! j)\<lparr>is_sent_start := is_sent_start (doc ! j)\<rparr> = doc ! j" if "j < length doc" for j
    using nth [OF that] by simp
  moreover have "doc' ! j = doc ! j"
    if "j < length doc" "\<not> (0 < j \<and> text (doc ! (j - 1)) = ''...'')" for j
    using nth [OF that(1)] that(2) by (auto simp: marked_def)
  ultimately show ?thesis
    using d by blast
qed

theorem set_custom_boundaries_frame_witness:
  "set_custom_boundaries [tok ''a'', tok ''...'', tok ''b'', tok ''c'']
     = Inr [tok ''a'', tok ''...'', (tok ''b'')\<lparr>is_sent_start := Some True\<rparr>, tok ''c'']
   \<and> (\<exists>doc'. set_custom_boundaries [tok ''a'', tok ''...'', tok ''b'', tok ''c''] = Inr doc'
        \<and> length doc' = 4 \<and> doc' ! 3 = tok ''c'' \<and> doc' ! 0 = tok ''a'' \<and> doc' ! 1 = tok ''...'')"
proof -
  have "set_custom_boundaries [tok ''a'', tok ''...'', tok ''b'', tok ''c'']
     = Inr [tok ''a'', tok ''...'', (tok ''b'')\<lparr>is_sent_start := Some True\<rparr>, tok ''c'']"
    by (simp add: set_custom_boundaries_def all_but_last_def upt_rec get_token_def
        set_is_sent_start_def tok_def)
  then show ?thesis
    using set_custom_boundaries_frame [of "[tok ''a'', tok ''...'', tok ''b'', tok ''c'']"]
    by simp
qed

section \<open>The counted word list\<close>

lemma words_set:
  "w \<in> set (words doc) \<longleftrightarrow> (\<exists>t \<in> set doc. text t = w \<and> \<not> is_stop t \<and> \<not> is_punct t)"
  by (auto simp: words_def)

text \<open>
  C5. In a document whose stop-word and punctuation flags are lexeme flags, as in every
  document the pipeline produces: for every token of the document, its text is in the
  counted word list if and only if its \<^verbatim>\<open>is_stop\<close> and \<^verbatim>\<open>is_punct\<close> flags are both
  false; and every word of the list is neither a stop word nor punctuation, that is, no
  token of that text has either flag set.
\<close>

theorem words_iff_not_stop_not_punct:
  assumes "lexeme_flags doc"
  shows "(\<forall>t \<in> set doc. text t \<in> set (words doc) \<longleftrightarrow> \<not> is_stop t \<and> \<not> is_punct t)
    \<and> (\<forall>w \<in> set (words doc). \<forall>t \<in> set doc. text t = w \<longrightarrow> \<not> is_stop t \<and> \<not> is_punct t)"
proof -
  have iff: "text t \<in> set (words doc) \<longleftrightarrow> \<not> is_stop t \<and> \<not> is_punct t" if "t \<in> set doc" for t
  proof
    assume "text t \<in> set (words doc)"
    then obtain u where "u \<in> set doc" "text u = text t" "\<not> is_stop u" "\<not> is_punct u"
      unfolding words_set by blast
    then show "\<not> is_stop t \<and> \<not> is_punct t"
      using assms that unfolding lexeme_flags_def by metis
  next
    assume "\<not> is_stop t \<and> \<not> is_punct t"
    then show "text t \<in> set (words doc)"
      using that unfolding words_set by blast
  qed
  then show ?thesis
    by blast
qed

theorem words_iff_not_stop_not_punct_witness:
  "lexeme_flags [tok ''Gus'', (tok ''is'')\<lparr>is_stop := True\<rparr>, tok ''helping'',
          (tok ''.'')\<lparr>is_punct := True\<rparr>, tok ''Gus'', (tok ''is'')\<lparr>is_stop := True\<rparr>]
   \<and> words [tok ''Gus'', (tok ''is'')\<lparr>is_stop := True\<rparr>, tok ''helping'',
          (tok ''.'')\<lparr>is_punct := True\<rparr>, tok ''Gus'', (tok ''is'')\<lparr>is_stop := True\<rparr>]
       = [''Gus'', ''helping'', ''Gus'']
   \<and> list_all (\<lambda>t. text t \<in> set (words [tok ''Gus'', (tok ''is'')\<lparr>is_stop := True\<rparr>,
          tok ''helping'', (tok ''.'')\<lparr>is_punct := True\<rparr>, tok ''Gus'',
          (tok ''is'')\<lparr>is_stop := True\<rparr>]) \<longleftrightarrow> \<not> is_stop t \<and> \<not> is_punct t)
        [tok ''Gus'', (tok ''is'')\<lparr>is_stop := True\<rparr>, tok ''helping'',
          (tok ''.'')\<lparr>is_punct := True\<rparr>, tok ''Gus'', (tok ''is'')\<lparr>is_stop := True\<rparr>]"
proof -
  let ?doc = "[tok ''Gus'', (tok ''is'')\<lparr>is_stop := True\<rparr>, tok ''helping'',
          (tok ''.'')\<lparr>is_punct := True\<rparr>, tok ''Gus'', (tok ''is'')\<lparr>is_stop := True\<rparr>]"
  have l: "lexeme_flags ?doc"
    by (simp add: lexeme_flags_def tok_def)
  have w: "words ?doc = [''Gus'', ''helping'', ''Gus'']"
    by (simp add: words_def tok_def)
  show ?thesis
    using l w words_iff_not_stop_not_punct [OF l] unfolding list_all_iff by blast
qed

text \<open>
  The flags must be those of the lexeme: in a sequence of token records where one text
  carries two different flags, which is not a document of the pipeline, the text of a
  flagged token is in the list.
\<close>

lemma words_iff_needs_lexeme_flags:
  "\<not> lexeme_flags [(tok ''a'')\<lparr>is_stop := True\<rparr>, tok ''a'']
   \<and> text ((tok ''a'')\<lparr>is_stop := True\<rparr>)
         \<in> set (words [(tok ''a'')\<lparr>is_stop := True\<rparr>, tok ''a''])
   \<and> is_stop ((tok ''a'')\<lparr>is_stop := True\<rparr>)"
  by (simp add: lexeme_flags_def words_def tok_def)

section \<open>Loading the pipeline, case by case\<close>

text \<open>
  C6. Loading handles exactly one failure: when the first load returns, its handle is
  the result and nothing is downloaded; when it raises \<^verbatim>\<open>OSError\<close>, the model is
  downloaded and the load is retried once, the outcome of the retry (a handle or any
  exception, \<^verbatim>\<open>OSError\<close> included) being the result; an exception of the first load
  other than \<^verbatim>\<open>OSError\<close>, and an exception of the download, leave the block uncaught.
  A download happens only after an \<^verbatim>\<open>OSError\<close> of the first load, at most once, and the
  load is called at most twice.
\<close>

theorem load_nlp_cases:
  "(load w = Inr h \<longrightarrow> load_nlp load download w = (Inr h, [Load]))
   \<and> (load w = Inl e \<and> e \<noteq> OSError \<longrightarrow> load_nlp load download w = (Inl e, [Load]))
   \<and> (load w = Inl OSError \<and> download w = Inl e' \<longrightarrow>
        load_nlp load download w = (Inl e', [Load, Download]))
   \<and> (load w = Inl OSError \<and> download w = Inr w' \<longrightarrow>
        load_nlp load download w = (load w', [Load, Download, Load]))
   \<and> (Download \<in> set (snd (load_nlp load download w)) \<longleftrightarrow> load w = Inl OSError)
   \<and> count_list (snd (load_nlp load download w)) Download \<le> 1
   \<and> count_list (snd (load_nlp load download w)) Load \<le> 2"
  by (auto simp: load_nlp_def split: sum.splits)

theorem load_nlp_cases_witness:
  "load_installed False = Inl OSError \<and> download_ok False = Inr True
   \<and> load_nlp load_installed download_ok False = (Inr 0, [Load, Download, Load])
   \<and> load_installed True = Inr 0
   \<and> load_nlp load_installed download_ok True = (Inr 0, [Load])"
proof -
  have a: "load_installed False = Inl OSError" "download_ok False = Inr True"
    "load_installed True = Inr 0"
    by (simp_all add: load_installed_def download_ok_def)
  show ?thesis
    using a load_nlp_cases [of load_installed False 0 download_ok OSError OSError True]
      load_nlp_cases [of load_installed True 0 download_ok OSError OSError True]
    by simp
qed

section \<open>How many pipelines the script holds\<close>

lemma card_held_le_2: "card (held s) \<le> 2"
  unfolding held_def
  by (cases "nlp s"; cases "custom_nlp s") (simp_all add: card_insert_if)

lemma run_loads_only: "run stmts s = run (filter is_load stmts) s"
proof (induction stmts arbitrary: s)
  case Nil
  show ?case by simp
next
  case (Cons c stmts)
  then show ?case
    by (cases c) (simp_all add: run_def)
qed

lemma loads_of_script:
  "filter is_load (map snd (filter (\<lambda>(l, c). l \<le> line) (script ok)))
     = map snd (filter (\<lambda>(l, c). l \<le> line)
         [(if ok then 9 else 14, Assign_load Nlp), (75, Assign_load Custom_nlp),
          (120, Assign_load Custom_nlp)])"
  by (simp add: script_def)

lemma state_at_loads:
  "state_at ok line = run (map snd (filter (\<lambda>(l, c). l \<le> line)
         [(if ok then 9 else 14, Assign_load Nlp), (75, Assign_load Custom_nlp),
          (120, Assign_load Custom_nlp)])) start"
  unfolding state_at_def
  by (subst run_loads_only) (simp only: loads_of_script)

text \<open>
  C7, the claim as stated: no more than one pipeline object is held at any point of the
  script. It fails once line 75 has run: \<^verbatim>\<open>nlp\<close> and \<^verbatim>\<open>custom_nlp\<close> then hold two
  different objects.
\<close>

theorem one_pipeline_counterexample:
  "\<not> card (held (state_at True 75)) \<le> 1"
  by (simp add: state_at_def script_def run_def start_def held_def)

text \<open>
  C7, amended. At every point of the script at most two pipeline objects are held: none
  before line 9; from the end of the \<^verbatim>\<open>try\<close> statement (line 14) on, \<^verbatim>\<open>nlp\<close> holds the
  first object loaded and is never rebound, alone up to line 74; from line 75 on
  \<^verbatim>\<open>custom_nlp\<close> holds a second object beside it, which line 120 replaces by a third,
  newly loaded one.
\<close>

theorem pipelines_held:
  "card (held (state_at ok line)) \<le> 2
    \<and> (line < 9 \<longrightarrow> held (state_at ok line) = {})
    \<and> (14 \<le> line \<longrightarrow> nlp (state_at ok line) = Some 0)
    \<and> (14 \<le> line \<and> line < 75 \<longrightarrow> held (state_at ok line) = {0})
    \<and> (75 \<le> line \<and> line < 120 \<longrightarrow> held (state_at ok line) = {0, 1})
    \<and> (120 \<le> line \<longrightarrow> held (state_at ok line) = {0, 2})"
proof -
  have "line < 9 \<longrightarrow> held (state_at ok line) = {}"
    by (simp add: state_at_loads run_def start_def held_def)
  moreover have "14 \<le> line \<longrightarrow> nlp (state_at ok line) = Some 0"
    by (simp add: state_at_loads run_def start_def)
  moreover have "14 \<le> line \<and> line < 75 \<longrightarrow> held (state_at ok line) = {0}"
    by (simp add: state_at_loads run_def start_def held_def)
  moreover have "75 \<le> line \<and> line < 120 \<longrightarrow> held (state_at ok line) = {0, 1}"
    by (auto simp: state_at_loads run_def start_def held_def)
  moreover have "120 \<le> line \<longrightarrow> held (state_at ok line) = {0, 2}"
    by (auto simp: state_at_loads run_def start_def held_def)
  ultimately show ?thesis
    using card_held_le_2 [of "state_at ok line"] by blast
qed

theorem pipelines_held_witness:
  "held (state_at False 13) = {} \<and> held (state_at True 74) = {0}
   \<and> held (state_at True 82) = {0, 1} \<and> held (state_at True 133) = {0, 2}
   \<and> card (held (state_at True 82)) \<le> 2"
proof -
  have "held (state_at False 13) = {}"
    by (simp add: state_at_loads run_def start_def held_def)
  then show ?thesis
    using pipelines_held [of True 74] pipelines_held [of True 82] pipelines_held [of True 133]
    by simp
qed

end
